theory Spec2Isabelle
  imports Main "HOL-Library.FSet"
begin

section \<open>Data model of the WebSocket hub\<close>

text \<open>
  The development follows the Go package \<open>handlers\<close> (the hub, its clients and the
  WebSocket entry point). A \<open>[]byte\<close> payload is a \<open>string\<close>. A \<open>*Client\<close> is an
  address (a \<open>nat\<close>) into a heap of \<open>Client\<close> structs; dereferencing an address that
  holds no struct is Go's nil-pointer panic. Every panic of the Go code is a value of
  \<open>panic\<close>, and a function that may panic returns \<open>panic + 'a\<close>.
\<close>

type_synonym bytes = string

datatype panic =
    NilDereference
  | NilMapWrite
  | SendOnClosedChannel
  | CloseOfClosedChannel

text \<open>\<open>type WSMessage struct\<close>: five string fields.\<close>

record WSMessage =
  Type :: string
  ChannelID :: string
  Author :: string
  Content :: string
  CreatedAt :: string

text \<open>
  A buffered Go channel \<open>chan []byte\<close>: the queued values (head first), the capacity
  given to \<open>make\<close>, and whether \<open>close\<close> has been called.
\<close>

record chan =
  buf :: "bytes list"
  cap :: nat
  closed :: bool

definition make_chan :: "nat \<Rightarrow> chan" where
  "make_chan n = \<lparr>buf = [], cap = n, closed = False\<rparr>"

text \<open>
  \<open>select { case ch <- v: default: }\<close>: a send that never waits. Sending on a closed
  channel panics (also inside \<open>select\<close>); with room in the buffer the value is
  queued at the tail; otherwise the \<open>default\<close> branch runs and nothing happens.
\<close>

definition select_send :: "chan \<Rightarrow> bytes \<Rightarrow> panic + chan" where
  "select_send ch v =
     (if closed ch then Inl SendOnClosedChannel
      else if length (buf ch) < cap ch then Inr (ch\<lparr>buf := buf ch @ [v]\<rparr>)
      else Inr ch)"

text \<open>\<open>close(ch)\<close>: closing a closed channel panics.\<close>

definition close_chan :: "chan \<Rightarrow> panic + chan" where
  "close_chan ch =
     (if closed ch then Inl CloseOfClosedChannel else Inr (ch\<lparr>closed := True\<rparr>))"

text \<open>
  One turn of \<open>for message := range ch\<close>: the head of the queue if there is one;
  the end of the loop if the channel is closed and drained; otherwise the receiver waits.
\<close>

datatype recv = Received bytes chan | Drained | Waiting

definition range_recv :: "chan \<Rightarrow> recv" where
  "range_recv ch =
     (case buf ch of
        v # vs \<Rightarrow> Received v (ch\<lparr>buf := vs\<rparr>)
      | [] \<Rightarrow> if closed ch then Drained else Waiting)"

text \<open>
  The \<open>*websocket.Conn\<close> of the gorilla library is outside the repository. The model
  keeps what the hub code can do to it: the messages \<open>WriteMessage\<close> has put on the
  wire, in order, and whether \<open>Close\<close> has been called.
\<close>

record Conn =
  written :: "bytes list"
  conn_closed :: bool

definition new_conn :: Conn where
  "new_conn = \<lparr>written = [], conn_closed = False\<rparr>"

text \<open>
  \<open>type Client struct\<close>. The field \<open>hub\<close> is left out: the program builds one hub
  (\<open>NewWSHandler\<close> is called once, in \<open>main\<close>) and every client points to it.
\<close>

record Client =
  conn :: Conn
  send :: chan
  channelID :: string

text \<open>\<open>type Hub struct\<close>: \<open>channels map[string]map[*Client]bool\<close>. The inner map only
  ever stores \<open>true\<close>, and the code only asks for the presence of a key, its length and
  its keys: it is a finite set of client addresses. The mutex \<open>mu\<close> is what makes
  \<open>Register\<close>, \<open>Unregister\<close> and \<open>Broadcast\<close> atomic with respect to the registry.\<close>

record Hub =
  channels :: "string \<rightharpoonup> nat fset"

text \<open>What \<open>log.Printf\<close> has printed.\<close>

datatype log_entry =
    ClientConnected string
  | ClientDisconnected string
  | WebSocketError
  | InvalidMessageFormat
  | FailedToMarshal
  | UpgradeError

text \<open>Where a goroutine of a client stands: not yet started by \<open>go\<close>, inside its
  loop, past its loop with the deferred call still to run, or returned.\<close>

datatype pump = NotStarted | Running | Closing | Exited

record world =
  hub :: Hub
  heap :: "nat \<rightharpoonup> Client"
  logged :: "log_entry list"
  readPump_st :: "nat \<Rightarrow> pump"
  writePump_st :: "nat \<Rightarrow> pump"

text \<open>\<open>NewHub\<close>, and the program state after \<open>NewWSHandler\<close>.\<close>

definition NewHub :: Hub where
  "NewHub = \<lparr>channels = Map.empty\<rparr>"

definition NewWSHandler :: world where
  "NewWSHandler =
     \<lparr>hub = NewHub, heap = Map.empty, logged = [],
      readPump_st = (\<lambda>_. NotStarted), writePump_st = (\<lambda>_. NotStarted)\<rparr>"

section \<open>The hub\<close>

text \<open>\<open>func (h *Hub) Register(client *Client)\<close>.\<close>

definition Register :: "nat \<Rightarrow> world \<Rightarrow> panic + world" where
  "Register client w =
     (case heap w client of
        None \<Rightarrow> Inl NilDereference
      | Some cl \<Rightarrow>
          let chs = (case channels (hub w) (channelID cl) of
                       None \<Rightarrow> (channels (hub w))(channelID cl \<mapsto> {||})
                     | Some _ \<Rightarrow> channels (hub w))
          in (case chs (channelID cl) of
                None \<Rightarrow> Inl NilMapWrite
              | Some clients \<Rightarrow>
                  Inr (w\<lparr>hub := (hub w)\<lparr>channels := chs(channelID cl \<mapsto> finsert client clients)\<rparr>,
                         logged := logged w @ [ClientConnected (channelID cl)]\<rparr>)))"

text \<open>
  \<open>func (h *Hub) Unregister(client *Client)\<close>. The inner map is shared with the outer
  one, so \<open>delete(clients, client)\<close> changes the entry of the channel; the emptiness
  test runs whether or not the client was found.
\<close>

definition Unregister :: "nat \<Rightarrow> world \<Rightarrow> panic + world" where
  "Unregister client w =
     (case heap w client of
        None \<Rightarrow> Inl NilDereference
      | Some cl \<Rightarrow>
          (case channels (hub w) (channelID cl) of
             None \<Rightarrow> Inr w
           | Some clients \<Rightarrow>
               (if client |\<in>| clients then
                  (case close_chan (send cl) of
                     Inl p \<Rightarrow> Inl p
                   | Inr ch \<Rightarrow>
                       let clients' = clients |-| {|client|};
                           w1 = w\<lparr>heap := (heap w)(client \<mapsto> cl\<lparr>send := ch\<rparr>),
                                  logged := logged w @ [ClientDisconnected (channelID cl)]\<rparr>
                       in Inr (w1\<lparr>hub := (hub w)\<lparr>channels :=
                                 (if clients' = {||} then (channels (hub w))(channelID cl := None)
                                  else (channels (hub w))(channelID cl \<mapsto> clients'))\<rparr>\<rparr>))
                else if clients = {||}
                  then Inr (w\<lparr>hub := (hub w)\<lparr>channels := (channels (hub w))(channelID cl := None)\<rparr>\<rparr>)
                  else Inr w)))"

text \<open>
  The body of \<open>for client := range clients\<close> in \<open>Broadcast\<close>, run over the members in
  the order of the list.
\<close>

fun Broadcast_loop :: "nat list \<Rightarrow> bytes \<Rightarrow> (nat \<rightharpoonup> Client) \<Rightarrow> panic + (nat \<rightharpoonup> Client)" where
  "Broadcast_loop [] message h = Inr h"
| "Broadcast_loop (client # rest) message h =
     (case h client of
        None \<Rightarrow> Inl NilDereference
      | Some cl \<Rightarrow>
          (case select_send (send cl) message of
             Inl p \<Rightarrow> Inl p
           | Inr ch \<Rightarrow> Broadcast_loop rest message (h(client \<mapsto> cl\<lparr>send := ch\<rparr>))))"

text \<open>
  \<open>func (h *Hub) Broadcast(channelID string, message []byte)\<close>. Go ranges over a map in
  an order of its own choosing; the model takes the members in increasing order of
  address, and \<open>Broadcast_loop_order\<close> below shows that the order does not matter for
  the result of a broadcast that does not panic.
\<close>

definition Broadcast :: "string \<Rightarrow> bytes \<Rightarrow> world \<Rightarrow> panic + world" where
  "Broadcast chID message w =
     (case channels (hub w) chID of
        None \<Rightarrow> Inr w
      | Some clients \<Rightarrow>
          (case Broadcast_loop (sorted_list_of_fset clients) message (heap w) of
             Inl p \<Rightarrow> Inl p
           | Inr h \<Rightarrow> Inr (w\<lparr>heap := h\<rparr>)))"

section \<open>The clients' goroutines and the entry point\<close>

text \<open>
  \<open>encoding/json\<close> is outside the repository: \<open>Unmarshal\<close> gives the struct decoded
  from a payload into a zero \<open>WSMessage\<close>, or \<open>None\<close> for an error; \<open>Marshal\<close>
  gives the encoding of a struct, or \<open>None\<close> for an error.
\<close>

record json =
  Unmarshal :: "bytes \<Rightarrow> WSMessage option"
  Marshal :: "WSMessage \<Rightarrow> bytes option"

text \<open>
  What the network hands to \<open>c.conn.ReadMessage()\<close>: an error (the flag says whether
  \<open>IsUnexpectedCloseError\<close> holds of it) or a payload. On a connection that has been
  closed the call returns an error whatever the network holds.
\<close>

datatype read_result = ReadErr bool | ReadMsg bytes

definition ReadMessage :: "read_result \<Rightarrow> Conn \<Rightarrow> read_result" where
  "ReadMessage r cn = (if conn_closed cn then ReadErr False else r)"

text \<open>
  \<open>c.conn.WriteMessage(websocket.TextMessage, message)\<close>: \<open>None\<close> is an error. The
  flag is whether the network accepts the write; a closed connection never does.
\<close>

definition WriteMessage :: "bool \<Rightarrow> Conn \<Rightarrow> bytes \<Rightarrow> Conn option" where
  "WriteMessage ok cn message =
     (if conn_closed cn \<or> \<not> ok then None
      else Some (cn\<lparr>written := written cn @ [message]\<rparr>))"

text \<open>\<open>c.conn.Close()\<close>, as the deferred calls of both pumps run it.\<close>

definition conn_Close :: "nat \<Rightarrow> world \<Rightarrow> panic + world" where
  "conn_Close c w =
     (case heap w c of
        None \<Rightarrow> Inl NilDereference
      | Some cl \<Rightarrow> Inr (w\<lparr>heap := (heap w)(c \<mapsto> cl\<lparr>conn := (conn cl)\<lparr>conn_closed := True\<rparr>\<rparr>)\<rparr>))"

text \<open>
  One turn of the loop of \<open>func (c *Client) readPump()\<close>; \<open>now\<close> is what
  \<open>time.Now().UTC().Format(time.RFC3339)\<close> returns at that moment. On a read error the
  loop is left and the deferred function starts with \<open>c.hub.Unregister(c)\<close>; its
  second call, \<open>c.conn.Close()\<close>, is a step of its own (\<open>ReadExit\<close> below).
\<close>

definition readPump_iter :: "json \<Rightarrow> read_result \<Rightarrow> string \<Rightarrow> nat \<Rightarrow> world \<Rightarrow> panic + world" where
  "readPump_iter J r now c w =
     (case heap w c of
        None \<Rightarrow> Inl NilDereference
      | Some cl \<Rightarrow>
          (case ReadMessage r (conn cl) of
             ReadErr unexpected \<Rightarrow>
               (let w1 = (if unexpected then w\<lparr>logged := logged w @ [WebSocketError]\<rparr> else w)
                in case Unregister c w1 of
                     Inl p \<Rightarrow> Inl p
                   | Inr w2 \<Rightarrow> Inr (w2\<lparr>readPump_st := (readPump_st w2)(c := Closing)\<rparr>))
           | ReadMsg rawMessage \<Rightarrow>
               (case Unmarshal J rawMessage of
                  None \<Rightarrow> Inr (w\<lparr>logged := logged w @ [InvalidMessageFormat]\<rparr>)
                | Some msg \<Rightarrow>
                    (let msg1 = msg\<lparr>ChannelID := channelID cl\<rparr>;
                         msg2 = msg1\<lparr>Type := ''message''\<rparr>;
                         msg3 = (if CreatedAt msg2 = [] then msg2\<lparr>CreatedAt := now\<rparr> else msg2)
                     in case Marshal J msg3 of
                          None \<Rightarrow> Inr (w\<lparr>logged := logged w @ [FailedToMarshal]\<rparr>)
                        | Some outMsg \<Rightarrow> Broadcast (channelID cl) outMsg w))))"

text \<open>
  One turn of the loop of \<open>func (c *Client) writePump()\<close>: \<open>None\<close> when the goroutine
  waits for a value on \<open>c.send\<close>. Leaving the loop (the channel is closed and drained,
  or a write failed) leaves the deferred \<open>c.conn.Close()\<close> to run (\<open>WriteExit\<close> below).
\<close>

definition writePump_iter :: "bool \<Rightarrow> nat \<Rightarrow> world \<Rightarrow> (panic + world) option" where
  "writePump_iter ok c w =
     (case heap w c of
        None \<Rightarrow> Some (Inl NilDereference)
      | Some cl \<Rightarrow>
          (case range_recv (send cl) of
             Waiting \<Rightarrow> None
           | Drained \<Rightarrow> Some (Inr (w\<lparr>writePump_st := (writePump_st w)(c := Closing)\<rparr>))
           | Received message ch \<Rightarrow>
               (case WriteMessage ok (conn cl) message of
                  None \<Rightarrow>
                    Some (Inr (w\<lparr>heap := (heap w)(c \<mapsto> cl\<lparr>send := ch\<rparr>),
                                 writePump_st := (writePump_st w)(c := Closing)\<rparr>))
                | Some cn \<Rightarrow>
                    Some (Inr (w\<lparr>heap := (heap w)(c \<mapsto> cl\<lparr>send := ch, conn := cn\<rparr>)\<rparr>)))))"

text \<open>
  \<open>func (ws *WSHandler) HandleWebSocket(w, r)\<close>. The request is its \<open>channel\<close> query
  parameter (\<open>Query().Get\<close> gives the empty string when it is absent); \<open>upgraded\<close> is
  whether \<open>upgrader.Upgrade\<close> succeeds; \<open>p\<close> is the address at which \<open>&Client{...}\<close>
  is allocated. The two \<open>go\<close> statements start both pumps. The answer is
  \<open>HttpError\<close> for the handler's own \<open>http.Error\<close> (text and status code),
  \<open>UpgradeFailed\<close> when \<open>Upgrade\<close> returns an error (the library has answered
  the request by then), and \<open>SwitchingProtocols\<close> when the connection is
  established.
\<close>

datatype response = HttpError string nat | UpgradeFailed | SwitchingProtocols

definition HandleWebSocket :: "string \<Rightarrow> bool \<Rightarrow> nat \<Rightarrow> world \<Rightarrow> panic + (response \<times> world)" where
  "HandleWebSocket channel upgraded p w =
     (if channel = [] then Inr (HttpError ''channel parameter required'' 400, w)
      else if \<not> upgraded then Inr (UpgradeFailed, w\<lparr>logged := logged w @ [UpgradeError]\<rparr>)
      else
        (let client = \<lparr>conn = new_conn, send = make_chan 256, channelID = channel\<rparr>;
             w1 = w\<lparr>heap := (heap w)(p \<mapsto> client)\<rparr>
         in case Register p w1 of
              Inl e \<Rightarrow> Inl e
            | Inr w2 \<Rightarrow>
                Inr (SwitchingProtocols,
                     w2\<lparr>writePump_st := (writePump_st w2)(p := Running),
                        readPump_st := (readPump_st w2)(p := Running)\<rparr>)))"

section \<open>The running system\<close>

text \<open>
  The program is the interleaving of the HTTP handler and the two pumps of every
  client. An event is one step of one of them, with what the outside world contributes
  to it:
  \<^item> \<open>Connect\<close>: a request to \<open>/ws\<close> (its channel parameter, whether the upgrade
    succeeds, the address of the new struct);
  \<^item> \<open>Read\<close>: one turn of the loop of a \<open>readPump\<close> (what the network delivers,
    the reading of the clock), with \<open>Unregister\<close> when the loop ends;
  \<^item> \<open>Write\<close>: one turn of the loop of a \<open>writePump\<close> (whether the network takes
    the write);
  \<^item> \<open>ReadExit\<close> and \<open>WriteExit\<close>: the deferred \<open>c.conn.Close()\<close> of the two
    pumps.

  \<open>Register\<close> and \<open>Unregister\<close> run under the write lock of the hub and
  \<open>Broadcast\<close> under its read lock: the member set does not change while a
  broadcast runs, and a broadcast is one step here. \<open>step\<close> is \<open>None\<close> when the
  event cannot happen in that state (the goroutine is not at that point, it waits for
  a value, or the address is in use); a panic ends the program.
\<close>

datatype event =
    Connect string bool nat
  | Read nat read_result string
  | ReadExit nat
  | Write nat bool
  | WriteExit nat

fun step :: "json \<Rightarrow> event \<Rightarrow> world \<Rightarrow> (panic + world) option" where
  "step J (Connect channel upgraded p) w =
     (if heap w p = None then Some (map_sum id snd (HandleWebSocket channel upgraded p w))
      else None)"
| "step J (Read c r now) w =
     (if readPump_st w c = Running then Some (readPump_iter J r now c w) else None)"
| "step J (ReadExit c) w =
     (if readPump_st w c = Closing
      then Some (map_sum id (\<lambda>w'. w'\<lparr>readPump_st := (readPump_st w')(c := Exited)\<rparr>) (conn_Close c w))
      else None)"
| "step J (Write c ok) w =
     (if writePump_st w c = Running then writePump_iter ok c w else None)"
| "step J (WriteExit c) w =
     (if writePump_st w c = Closing
      then Some (map_sum id (\<lambda>w'. w'\<lparr>writePump_st := (writePump_st w')(c := Exited)\<rparr>) (conn_Close c w))
      else None)"

fun run :: "json \<Rightarrow> event list \<Rightarrow> world \<Rightarrow> (panic + world) option" where
  "run J [] w = Some (Inr w)"
| "run J (e # es) w =
     (case step J e w of
        Some (Inr w') \<Rightarrow> run J es w'
      | r \<Rightarrow> r)"

section \<open>Notions used to state the properties\<close>

text \<open>The member set a lookup of topic \<open>T\<close> in the registry sees: empty when the
  topic has no entry.\<close>

definition members :: "world \<Rightarrow> string \<Rightarrow> nat fset" where
  "members w T = (case channels (hub w) T of None \<Rightarrow> {||} | Some cs \<Rightarrow> cs)"

text \<open>What one enqueue attempt of \<open>Broadcast\<close> does to a client whose channel is
  open: the payload joins the tail of the mailbox if there is room, and is dropped
  otherwise.\<close>

definition offer :: "bytes \<Rightarrow> Client \<Rightarrow> Client" where
  "offer message cl =
     (if length (buf (send cl)) < cap (send cl)
      then cl\<lparr>send := (send cl)\<lparr>buf := buf (send cl) @ [message]\<rparr>\<rparr>
      else cl)"

text \<open>Two versions of a client struct that differ at most in the queued payloads and in
  the connection.\<close>

definition same_shape :: "Client \<Rightarrow> Client \<Rightarrow> bool" where
  "same_shape cl' cl \<longleftrightarrow>
     channelID cl' = channelID cl \<and> closed (send cl') = closed (send cl) \<and>
     cap (send cl') = cap (send cl)"

text \<open>
  The invariant of the running system: no topic has an empty entry; a member of topic
  \<open>T\<close> is an allocated client bound to \<open>T\<close> whose mailbox is open and whose
  \<open>readPump\<close> is in its loop; a client whose \<open>readPump\<close> is in its loop is a member
  of its topic; an address without a struct has no goroutines; every client struct has
  a mailbox of capacity 256, a non-empty channel and two goroutines that have been
  started.
\<close>

definition hub_inv :: "world \<Rightarrow> bool" where
  "hub_inv w \<longleftrightarrow>
     (\<forall>T cs. channels (hub w) T = Some cs \<longrightarrow> cs \<noteq> {||}) \<and>
     (\<forall>T cs c. channels (hub w) T = Some cs \<longrightarrow> c |\<in>| cs \<longrightarrow>
        (\<exists>cl. heap w c = Some cl \<and> channelID cl = T \<and> \<not> closed (send cl) \<and>
              readPump_st w c = Running)) \<and>
     (\<forall>c cl. heap w c = Some cl \<longrightarrow> readPump_st w c = Running \<longrightarrow>
        (\<exists>cs. channels (hub w) (channelID cl) = Some cs \<and> c |\<in>| cs)) \<and>
     (\<forall>c. heap w c = None \<longrightarrow> readPump_st w c = NotStarted \<and> writePump_st w c = NotStarted) \<and>
     (\<forall>c cl. heap w c = Some cl \<longrightarrow>
        cap (send cl) = 256 \<and> channelID cl \<noteq> [] \<and>
        readPump_st w c \<noteq> NotStarted \<and> writePump_st w c \<noteq> NotStarted)"

text \<open>
  The connection lifecycle \<open>Connecting \<rightarrow> Active \<rightarrow> Draining \<rightarrow> Closed\<close> of the
  specification. The code keeps no such field; the state of a connection is read off
  its two goroutines. It is \<open>Active\<close> while both loops run, \<open>Closed\<close> once both
  pumps have returned, and \<open>Draining\<close> in between: from the moment a read error or a
  write error makes one loop end.
\<close>

datatype lifecycle = Connecting | Active | Draining | Closed

definition lifecycle_of :: "world \<Rightarrow> nat \<Rightarrow> lifecycle" where
  "lifecycle_of w c =
     (if readPump_st w c = NotStarted \<or> writePump_st w c = NotStarted then Connecting
      else if readPump_st w c = Running \<and> writePump_st w c = Running then Active
      else if readPump_st w c = Exited \<and> writePump_st w c = Exited then Closed
      else Draining)"

text \<open>
  Observations of one client \<open>r\<close>: what its \<open>writePump\<close> has put on the wire, what is
  queued in its mailbox, and the payloads that entered its mailbox during a run, in the
  order of the steps that queued them (a step's contribution is what the mailbox holds
  beyond its former length).
\<close>

definition wire :: "world \<Rightarrow> nat \<Rightarrow> bytes list" where
  "wire w r = (case heap w r of None \<Rightarrow> [] | Some cl \<Rightarrow> written (conn cl))"

definition queue :: "world \<Rightarrow> nat \<Rightarrow> bytes list" where
  "queue w r = (case heap w r of None \<Rightarrow> [] | Some cl \<Rightarrow> buf (send cl))"

fun enqueued :: "json \<Rightarrow> nat \<Rightarrow> event list \<Rightarrow> world \<Rightarrow> bytes list" where
  "enqueued J r [] w = []"
| "enqueued J r (e # es) w =
     (case step J e w of
        Some (Inr w') \<Rightarrow> drop (length (queue w r)) (queue w' r) @ enqueued J r es w'
      | _ \<Rightarrow> [])"

text \<open>
  How one step can touch the mailbox of \<open>r\<close>: it leaves the wire alone and at most
  appends to the queue (\<open>quiet\<close>), or it is a turn of the \<open>writePump\<close> of \<open>r\<close>
  that takes the head of the queue and either writes it or ends the loop (\<open>dequeues\<close>).
\<close>

definition quiet :: "nat \<Rightarrow> world \<Rightarrow> world \<Rightarrow> bool" where
  "quiet r w w' \<longleftrightarrow>
     wire w' r = wire w r \<and> (\<exists>new. queue w' r = queue w r @ new) \<and>
     (heap w r \<noteq> None \<longrightarrow> heap w' r \<noteq> None \<and>
        (writePump_st w r \<noteq> Running \<longrightarrow> writePump_st w' r \<noteq> Running))"

definition dequeues :: "nat \<Rightarrow> world \<Rightarrow> world \<Rightarrow> bool" where
  "dequeues r w w' \<longleftrightarrow>
     (\<exists>v. queue w r = v # queue w' r \<and> writePump_st w r = Running \<and> heap w' r \<noteq> None \<and>
          (wire w' r = wire w r @ [v] \<or> wire w' r = wire w r \<and> writePump_st w' r \<noteq> Running))"

section \<open>Example runs\<close>

text \<open>
  A small codec for the examples. The payload \<open>bad\<close> does not decode. Every other
  payload decodes to a message of author \<open>alice\<close> with the payload as content, a type
  and a channel of the client's own choosing, and no creation time, except the payload
  \<open>dated\<close>, which carries the creation time \<open>yesterday\<close>. A message is encoded as its
  five fields in a row.
\<close>

definition demo_Unmarshal :: "bytes \<Rightarrow> WSMessage option" where
  "demo_Unmarshal raw =
     (if raw = ''bad'' then None
      else Some \<lparr>Type = ''spoof'', ChannelID = ''other'', Author = ''alice'', Content = raw,
                 CreatedAt = (if raw = ''dated'' then ''yesterday'' else [])\<rparr>)"

definition demo_Marshal :: "WSMessage \<Rightarrow> bytes option" where
  "demo_Marshal msg =
     Some (Type msg @ ''|'' @ ChannelID msg @ ''|'' @ Author msg @ ''|'' @ Content msg @ ''|'' @
           CreatedAt msg)"

definition demo_json :: json where
  "demo_json = \<lparr>Unmarshal = demo_Unmarshal, Marshal = demo_Marshal\<rparr>"

text \<open>A client of channel \<open>general\<close> as \<open>HandleWebSocket\<close> creates it, and the state
  after one such client has connected at address 0.\<close>

definition demo_client :: Client where
  "demo_client = \<lparr>conn = new_conn, send = make_chan 256, channelID = ''general''\<rparr>"

definition one_client :: world where
  "one_client =
     \<lparr>hub = \<lparr>channels = [''general'' \<mapsto> {|0|}]\<rparr>,
      heap = [0 \<mapsto> demo_client],
      logged = [ClientConnected ''general''],
      readPump_st = (\<lambda>_. NotStarted)(0 := Running),
      writePump_st = (\<lambda>_. NotStarted)(0 := Running)\<rparr>"

text \<open>
  A client connects, publishes one message (which is queued for itself), and the write
  of that message fails: its \<open>writePump\<close> leaves the loop and closes the connection.
\<close>

definition write_failure_trace :: "event list" where
  "write_failure_trace =
     [Connect ''general'' True 0, Read 0 (ReadMsg ''hi'') ''2026-01-01T00:00:00Z'',
      Write 0 False, WriteExit 0]"

definition write_failure_world :: world where
  "write_failure_world =
     \<lparr>hub = \<lparr>channels = [''general'' \<mapsto> {|0|}]\<rparr>,
      heap = [0 \<mapsto> demo_client\<lparr>conn := new_conn\<lparr>conn_closed := True\<rparr>\<rparr>],
      logged = [ClientConnected ''general''],
      readPump_st = (\<lambda>_. NotStarted)(0 := Running),
      writePump_st = (\<lambda>_. NotStarted)(0 := Exited)\<rparr>"

text \<open>
  A client connects at address 0 and publishes the payload \<open>x\<close> over and over
  while nothing is written to it: after \<open>k\<close> turns its own mailbox holds \<open>k\<close>
  copies of the message. After 256 turns the mailbox is full; then a second client
  connects to the same channel at address 1.
\<close>

definition filling :: "nat \<Rightarrow> world" where
  "filling k =
     \<lparr>hub = \<lparr>channels = [''general'' \<mapsto> {|0|}]\<rparr>,
      heap = [0 \<mapsto> demo_client\<lparr>send := (make_chan 256)
                      \<lparr>buf := replicate k ''message|general|alice|x|t''\<rparr>\<rparr>],
      logged = [ClientConnected ''general''],
      readPump_st = (\<lambda>_. NotStarted)(0 := Running),
      writePump_st = (\<lambda>_. NotStarted)(0 := Running)\<rparr>"

definition full_and_free :: world where
  "full_and_free =
     \<lparr>hub = \<lparr>channels = [''general'' \<mapsto> {|1, 0|}]\<rparr>,
      heap = [0 \<mapsto> demo_client\<lparr>send := (make_chan 256)
                      \<lparr>buf := replicate 256 ''message|general|alice|x|t''\<rparr>\<rparr>,
              1 \<mapsto> demo_client],
      logged = [ClientConnected ''general'', ClientConnected ''general''],
      readPump_st = (\<lambda>_. NotStarted)(0 := Running, 1 := Running),
      writePump_st = (\<lambda>_. NotStarted)(0 := Running, 1 := Running)\<rparr>"

definition fill_trace :: "event list" where
  "fill_trace =
     Connect ''general'' True 0 # replicate 256 (Read 0 (ReadMsg ''x'') ''t'') @
     [Connect ''general'' True 1]"

text \<open>
  From there, client 0 publishes \<open>M1\<close> and then \<open>M2\<close>, and the \<open>writePump\<close>
  of client 1 writes twice.
\<close>

definition fifo_trace :: "event list" where
  "fifo_trace =
     [Read 0 (ReadMsg ''M1'') ''t1'', Read 0 (ReadMsg ''M2'') ''t2'',
      Write 1 True, Write 1 True]"

definition fifo_world :: world where
  "fifo_world =
     \<lparr>hub = \<lparr>channels = [''general'' \<mapsto> {|1, 0|}]\<rparr>,
      heap = [0 \<mapsto> demo_client\<lparr>send := (make_chan 256)
                      \<lparr>buf := replicate 256 ''message|general|alice|x|t''\<rparr>\<rparr>,
              1 \<mapsto> demo_client\<lparr>conn := new_conn
                      \<lparr>written := [''message|general|alice|M1|t1'', ''message|general|alice|M2|t2'']\<rparr>\<rparr>],
      logged = [ClientConnected ''general'', ClientConnected ''general''],
      readPump_st = (\<lambda>_. NotStarted)(0 := Running, 1 := Running),
      writePump_st = (\<lambda>_. NotStarted)(0 := Running, 1 := Running)\<rparr>"

section \<open>Channels and the broadcast loop\<close>

lemma select_send_open:
  "\<not> closed ch \<Longrightarrow>
   select_send ch v = Inr (if length (buf ch) < cap ch then ch\<lparr>buf := buf ch @ [v]\<rparr> else ch)"
  by (simp add: select_send_def)

lemma offer_fields [simp]:
  "channelID (offer m cl) = channelID cl"
  "conn (offer m cl) = conn cl"
  "closed (send (offer m cl)) = closed (send cl)"
  "cap (send (offer m cl)) = cap (send cl)"
  by (simp_all add: offer_def)

lemma distinct_sorted_list_of_fset: "distinct (sorted_list_of_fset S)"
  by (simp add: sorted_list_of_fset.rep_eq)

text \<open>A loop over members whose channels are all open does not panic, and makes one
  enqueue attempt per member.\<close>

lemma Broadcast_loop_Inr:
  "distinct xs \<Longrightarrow> \<forall>c\<in>set xs. \<exists>cl. h c = Some cl \<and> \<not> closed (send cl) \<Longrightarrow>
   Broadcast_loop xs m h = Inr (\<lambda>c. if c \<in> set xs then map_option (offer m) (h c) else h c)"
proof (induction xs arbitrary: h)
  case Nil
  then show ?case by simp
next
  case (Cons x xs)
  from Cons.prems obtain cl where cl: "h x = Some cl" "\<not> closed (send cl)" by auto
  let ?h = "h(x \<mapsto> offer m cl)"
  have step: "Broadcast_loop (x # xs) m h = Broadcast_loop xs m ?h"
    using cl by (simp add: select_send_open offer_def)
  have pre: "\<forall>c\<in>set xs. \<exists>cl. ?h c = Some cl \<and> \<not> closed (send cl)"
    using Cons.prems by auto
  have dist: "distinct xs" using Cons.prems by simp
  have A: "Broadcast_loop xs m ?h =
             Inr (\<lambda>c. if c \<in> set xs then map_option (offer m) (?h c) else ?h c)"
    by (rule Cons.IH[OF dist pre])
  have B: "(\<lambda>c. if c \<in> set xs then map_option (offer m) (?h c) else ?h c)
           = (\<lambda>c. if c \<in> set (x # xs) then map_option (offer m) (h c) else h c)"
    using Cons.prems cl by (auto simp: fun_eq_iff)
  show ?case unfolding step A B ..
qed

text \<open>Conversely, a loop that returns has met only allocated members with open
  channels.\<close>

lemma Broadcast_loop_InrD:
  "Broadcast_loop xs m h = Inr h' \<Longrightarrow> \<forall>c\<in>set xs. \<exists>cl. h c = Some cl \<and> \<not> closed (send cl)"
proof (induction xs arbitrary: h)
  case Nil
  then show ?case by simp
next
  case (Cons x xs)
  from Cons.prems obtain cl ch where cl: "h x = Some cl" "select_send (send cl) m = Inr ch"
    and rest: "Broadcast_loop xs m (h(x \<mapsto> cl\<lparr>send := ch\<rparr>)) = Inr h'"
    by (auto split: option.splits sum.splits)
  have open_x: "\<not> closed (send cl)"
    using cl(2) by (auto simp: select_send_def split: if_splits)
  from Cons.IH[OF rest]
  have IH: "\<forall>c\<in>set xs. \<exists>cl'. (h(x \<mapsto> cl\<lparr>send := ch\<rparr>)) c = Some cl' \<and> \<not> closed (send cl')" .
  show ?case
  proof
    fix c assume "c \<in> set (x # xs)"
    then show "\<exists>cl. h c = Some cl \<and> \<not> closed (send cl)"
      using IH cl(1) open_x by (cases "c = x") auto
  qed
qed

text \<open>The order in which the members are visited does not change the result of a loop
  that returns.\<close>

lemma Broadcast_loop_order:
  assumes "Broadcast_loop xs m h = Inr h'" "distinct xs" "distinct ys" "set ys = set xs"
  shows "Broadcast_loop ys m h = Inr h'"
proof -
  note ok = Broadcast_loop_InrD[OF assms(1)]
  have "Inr h' = Inr (\<lambda>c. if c \<in> set xs then map_option (offer m) (h c) else h c)"
    using Broadcast_loop_Inr[OF assms(2) ok] assms(1) by simp
  moreover have "Broadcast_loop ys m h =
      Inr (\<lambda>c. if c \<in> set ys then map_option (offer m) (h c) else h c)"
    by (rule Broadcast_loop_Inr[OF assms(3)]) (use ok assms(4) in simp)
  ultimately show ?thesis using assms(4) by simp
qed

lemma Broadcast_no_entry: "channels (hub w) T = None \<Longrightarrow> Broadcast T m w = Inr w"
  by (simp add: Broadcast_def)

lemma Broadcast_members_open:
  assumes "channels (hub w) T = Some cs"
    and "\<forall>c. c |\<in>| cs \<longrightarrow> (\<exists>cl. heap w c = Some cl \<and> \<not> closed (send cl))"
  shows "Broadcast T m w =
           Inr (w\<lparr>heap := (\<lambda>c. if c |\<in>| cs then map_option (offer m) (heap w c) else heap w c)\<rparr>)"
proof -
  have "Broadcast_loop (sorted_list_of_fset cs) m (heap w) =
          Inr (\<lambda>c. if c \<in> set (sorted_list_of_fset cs) then map_option (offer m) (heap w c)
                   else heap w c)"
    by (rule Broadcast_loop_Inr) (use assms(2) in \<open>auto simp: distinct_sorted_list_of_fset\<close>)
  then show ?thesis using assms(1) by (simp add: Broadcast_def)
qed

lemma Broadcast_InrD:
  assumes "Broadcast T m w = Inr w'" and "channels (hub w) T = Some cs"
  shows "\<forall>c. c |\<in>| cs \<longrightarrow> (\<exists>cl. heap w c = Some cl \<and> \<not> closed (send cl))"
proof -
  from assms obtain h where "Broadcast_loop (sorted_list_of_fset cs) m (heap w) = Inr h"
    by (auto simp: Broadcast_def split: sum.splits)
  from Broadcast_loop_InrD[OF this] show ?thesis by auto
qed

lemma Register_allocated:
  "heap w c = Some cl \<Longrightarrow>
   Register c w =
     Inr (w\<lparr>hub := (hub w)\<lparr>channels := (channels (hub w))(channelID cl \<mapsto>
                 finsert c (case channels (hub w) (channelID cl) of None \<Rightarrow> {||} | Some cs \<Rightarrow> cs))\<rparr>,
            logged := logged w @ [ClientConnected (channelID cl)]\<rparr>)"
  by (auto simp: Register_def Let_def split: option.splits)

lemma Unregister_member:
  assumes "heap w c = Some cl" "channels (hub w) (channelID cl) = Some cs" "c |\<in>| cs"
    "\<not> closed (send cl)"
  shows "Unregister c w =
     Inr (w\<lparr>heap := (heap w)(c \<mapsto> cl\<lparr>send := (send cl)\<lparr>closed := True\<rparr>\<rparr>),
            logged := logged w @ [ClientDisconnected (channelID cl)],
            hub := (hub w)\<lparr>channels :=
              (if cs |-| {|c|} = {||} then (channels (hub w))(channelID cl := None)
               else (channels (hub w))(channelID cl \<mapsto> cs |-| {|c|}))\<rparr>\<rparr>)"
  using assms by (simp add: Unregister_def close_chan_def Let_def)

section \<open>The invariant of the running system\<close>

lemma hub_invI:
  assumes "\<And>T cs. channels (hub w) T = Some cs \<Longrightarrow> cs \<noteq> {||}"
    and "\<And>T cs c. channels (hub w) T = Some cs \<Longrightarrow> c |\<in>| cs \<Longrightarrow>
        \<exists>cl. heap w c = Some cl \<and> channelID cl = T \<and> \<not> closed (send cl) \<and>
              readPump_st w c = Running"
    and "\<And>c cl. heap w c = Some cl \<Longrightarrow> readPump_st w c = Running \<Longrightarrow>
        \<exists>cs. channels (hub w) (channelID cl) = Some cs \<and> c |\<in>| cs"
    and "\<And>c. heap w c = None \<Longrightarrow> readPump_st w c = NotStarted \<and> writePump_st w c = NotStarted"
    and "\<And>c cl. heap w c = Some cl \<Longrightarrow>
        cap (send cl) = 256 \<and> channelID cl \<noteq> [] \<and>
        readPump_st w c \<noteq> NotStarted \<and> writePump_st w c \<noteq> NotStarted"
  shows "hub_inv w"
  unfolding hub_inv_def using assms by blast

lemma hub_inv_nonempty: "hub_inv w \<Longrightarrow> channels (hub w) T = Some cs \<Longrightarrow> cs \<noteq> {||}"
  unfolding hub_inv_def by blast

lemma hub_inv_member:
  "hub_inv w \<Longrightarrow> channels (hub w) T = Some cs \<Longrightarrow> c |\<in>| cs \<Longrightarrow>
     \<exists>cl. heap w c = Some cl \<and> channelID cl = T \<and> \<not> closed (send cl) \<and> readPump_st w c = Running"
  unfolding hub_inv_def by blast

lemma hub_inv_running:
  "hub_inv w \<Longrightarrow> heap w c = Some cl \<Longrightarrow> readPump_st w c = Running \<Longrightarrow>
     \<exists>cs. channels (hub w) (channelID cl) = Some cs \<and> c |\<in>| cs"
  unfolding hub_inv_def by blast

lemma hub_inv_unallocated:
  "hub_inv w \<Longrightarrow> heap w c = None \<Longrightarrow> readPump_st w c = NotStarted \<and> writePump_st w c = NotStarted"
  unfolding hub_inv_def by blast

lemma hub_inv_allocated:
  "hub_inv w \<Longrightarrow> heap w c = Some cl \<Longrightarrow>
     cap (send cl) = 256 \<and> channelID cl \<noteq> [] \<and>
     readPump_st w c \<noteq> NotStarted \<and> writePump_st w c \<noteq> NotStarted"
  unfolding hub_inv_def by blast

lemma hub_inv_cap: "hub_inv w \<Longrightarrow> heap w c = Some cl \<Longrightarrow> cap (send cl) = 256"
  using hub_inv_allocated by blast

lemma hub_inv_init: "hub_inv NewWSHandler"
  by (simp add: hub_inv_def NewWSHandler_def NewHub_def)

lemma hub_inv_logged: "hub_inv (w\<lparr>logged := l\<rparr>) = hub_inv w"
  by (simp add: hub_inv_def)

lemma hub_inv_HandleWebSocket:
  assumes inv: "hub_inv w" and p: "heap w p = None"
    and h: "HandleWebSocket T up p w = Inr (r, w')"
  shows "hub_inv w'"
proof (cases "T = [] \<or> \<not> up")
  case True
  then show ?thesis using inv h
    by (auto simp: HandleWebSocket_def hub_inv_logged split: if_splits)
next
  case False
  let ?cl = "\<lparr>conn = new_conn, send = make_chan 256, channelID = T\<rparr>"
  let ?w1 = "w\<lparr>heap := (heap w)(p \<mapsto> ?cl)\<rparr>"
  let ?old = "case channels (hub w) T of None \<Rightarrow> {||} | Some cs \<Rightarrow> cs"
  let ?w = "?w1\<lparr>hub := (hub w)\<lparr>channels := (channels (hub w))(T \<mapsto> finsert p ?old)\<rparr>,
            logged := logged w @ [ClientConnected T],
            writePump_st := (writePump_st w)(p := Running),
            readPump_st := (readPump_st w)(p := Running)\<rparr>"
  have R: "Register p ?w1 = Inr (?w1\<lparr>hub := (hub w)\<lparr>channels :=
                 (channels (hub w))(T \<mapsto> finsert p ?old)\<rparr>,
            logged := logged w @ [ClientConnected T]\<rparr>)"
    using Register_allocated[of ?w1 p ?cl] by simp
  have w': "w' = ?w"
    using h False R by (simp add: HandleWebSocket_def Let_def)
  have fresh: "p |\<notin>| cs" if "channels (hub w) U = Some cs" for U cs
    using hub_inv_member[OF inv that, of p] p by auto
  have old: "c |\<in>| ?old \<Longrightarrow> \<exists>cs. channels (hub w) T = Some cs \<and> c |\<in>| cs" for c
    by (cases "channels (hub w) T") auto
  have "hub_inv ?w"
  proof (rule hub_invI)
    fix U cs assume a: "channels (hub ?w) U = Some cs"
    show "cs \<noteq> {||}"
    proof (cases "U = T")
      case True
      then show ?thesis using a by auto
    next
      case False
      then show ?thesis using a hub_inv_nonempty[OF inv, of U cs] by simp
    qed
  next
    fix U cs c assume a: "channels (hub ?w) U = Some cs" "c |\<in>| cs"
    show "\<exists>cl. heap ?w c = Some cl \<and> channelID cl = U \<and> \<not> closed (send cl) \<and>
              readPump_st ?w c = Running"
    proof (cases "c = p")
      case True
      have "U = T" using a True fresh[of U cs] by (cases "U = T") auto
      then show ?thesis using True by (simp add: make_chan_def)
    next
      case cp: False
      have "\<exists>ds. channels (hub w) U = Some ds \<and> c |\<in>| ds"
      proof (cases "U = T")
        case True
        then show ?thesis using a cp old[of c] by auto
      next
        case False
        then show ?thesis using a by auto
      qed
      then obtain ds where "channels (hub w) U = Some ds" "c |\<in>| ds" by blast
      from hub_inv_member[OF inv this] show ?thesis using cp by simp
    qed
  next
    fix c cl assume a: "heap ?w c = Some cl" "readPump_st ?w c = Running"
    show "\<exists>cs. channels (hub ?w) (channelID cl) = Some cs \<and> c |\<in>| cs"
    proof (cases "c = p")
      case True
      then show ?thesis using a by auto
    next
      case cp: False
      with a have b: "heap w c = Some cl" "readPump_st w c = Running" by auto
      from hub_inv_running[OF inv b] obtain cs
        where "channels (hub w) (channelID cl) = Some cs" "c |\<in>| cs" by blast
      then show ?thesis by (cases "channelID cl = T") auto
    qed
  next
    fix c assume "heap ?w c = None"
    then have "heap w c = None" "c \<noteq> p" by (auto split: if_splits)
    then show "readPump_st ?w c = NotStarted \<and> writePump_st ?w c = NotStarted"
      using hub_inv_unallocated[OF inv, of c] by simp
  next
    fix c cl assume a: "heap ?w c = Some cl"
    show "cap (send cl) = 256 \<and> channelID cl \<noteq> [] \<and>
        readPump_st ?w c \<noteq> NotStarted \<and> writePump_st ?w c \<noteq> NotStarted"
    proof (cases "c = p")
      case True
      then show ?thesis using a False by (auto simp: make_chan_def)
    next
      case False
      then show ?thesis using a hub_inv_allocated[OF inv, of c cl] by simp
    qed
  qed
  then show ?thesis unfolding w' .
qed

lemma hub_inv_Unregister:
  assumes inv: "hub_inv w" and c: "heap w c = Some cl" and run: "readPump_st w c = Running"
  shows "\<exists>w'. Unregister c w = Inr w' \<and> hub_inv (w'\<lparr>readPump_st := (readPump_st w')(c := Closing)\<rparr>)"
proof -
  from hub_inv_running[OF inv c run] obtain cs
    where cs: "channels (hub w) (channelID cl) = Some cs" "c |\<in>| cs" by blast
  from hub_inv_member[OF inv cs] c have op: "\<not> closed (send cl)" by auto
  note U = Unregister_member[OF c cs op]
  let ?chs = "(if cs |-| {|c|} = {||} then (channels (hub w))(channelID cl := None)
               else (channels (hub w))(channelID cl \<mapsto> cs |-| {|c|}))"
  let ?w = "w\<lparr>heap := (heap w)(c \<mapsto> cl\<lparr>send := (send cl)\<lparr>closed := True\<rparr>\<rparr>),
            logged := logged w @ [ClientDisconnected (channelID cl)],
            hub := (hub w)\<lparr>channels := ?chs\<rparr>,
            readPump_st := (readPump_st w)(c := Closing)\<rparr>"
  have sub: "\<And>U ds. ?chs U = Some ds \<Longrightarrow>
      ds \<noteq> {||} \<and> c |\<notin>| ds \<and> (\<exists>es. channels (hub w) U = Some es \<and> ds |\<subseteq>| es)"
  proof -
    fix U ds assume a: "?chs U = Some ds"
    show "ds \<noteq> {||} \<and> c |\<notin>| ds \<and> (\<exists>es. channels (hub w) U = Some es \<and> ds |\<subseteq>| es)"
    proof (cases "U = channelID cl")
      case True
      then show ?thesis using a cs by (auto split: if_splits)
    next
      case False
      then have d: "channels (hub w) U = Some ds" using a by (auto split: if_splits)
      have "c |\<notin>| ds" using hub_inv_member[OF inv d, of c] c False by auto
      then show ?thesis using d hub_inv_nonempty[OF inv d] by auto
    qed
  qed
  have "hub_inv ?w"
  proof (rule hub_invI)
    fix T ds assume "channels (hub ?w) T = Some ds"
    then show "ds \<noteq> {||}" using sub[of T ds] by simp
  next
    fix T ds d assume a: "channels (hub ?w) T = Some ds" "d |\<in>| ds"
    then have "?chs T = Some ds" by simp
    from sub[OF this] obtain es where es: "channels (hub w) T = Some es" "ds |\<subseteq>| es" "c |\<notin>| ds"
      by blast
    then have "d |\<in>| es" "d \<noteq> c" using a(2) by auto
    with hub_inv_member[OF inv es(1), of d]
    show "\<exists>cl. heap ?w d = Some cl \<and> channelID cl = T \<and> \<not> closed (send cl) \<and>
              readPump_st ?w d = Running" by simp
  next
    fix d dl assume a: "heap ?w d = Some dl" "readPump_st ?w d = Running"
    then have dc: "d \<noteq> c" by (auto split: if_splits)
    with a have b: "heap w d = Some dl" "readPump_st w d = Running" by auto
    from hub_inv_running[OF inv b] obtain ds
      where ds: "channels (hub w) (channelID dl) = Some ds" "d |\<in>| ds" by blast
    show "\<exists>cs. channels (hub ?w) (channelID dl) = Some cs \<and> d |\<in>| cs"
    proof (cases "channelID dl = channelID cl")
      case True
      then have "d |\<in>| cs |-| {|c|}" using ds cs dc by auto
      then show ?thesis using True by auto
    next
      case False
      then show ?thesis using ds by auto
    qed
  next
    fix d assume "heap ?w d = None"
    then have "heap w d = None" "d \<noteq> c" by (auto split: if_splits)
    with hub_inv_unallocated[OF inv, of d]
    show "readPump_st ?w d = NotStarted \<and> writePump_st ?w d = NotStarted" by simp
  next
    fix d dl assume "heap ?w d = Some dl"
    then show "cap (send dl) = 256 \<and> channelID dl \<noteq> [] \<and>
        readPump_st ?w d \<noteq> NotStarted \<and> writePump_st ?w d \<noteq> NotStarted"
      using hub_inv_allocated[OF inv, of d] hub_inv_allocated[OF inv c]
      by (auto split: if_splits)
  qed
  then show ?thesis unfolding U by simp
qed


lemma hub_inv_frame:
  assumes inv: "hub_inv w"
    and hub: "hub w' = hub w"
    and heap: "\<And>c. rel_option same_shape (heap w' c) (heap w c)"
    and rp: "\<And>c. (readPump_st w' c = Running) = (readPump_st w c = Running)"
    and fresh: "\<And>c. heap w c = None \<Longrightarrow>
                  readPump_st w' c = readPump_st w c \<and> writePump_st w' c = writePump_st w c"
    and started: "\<And>c. readPump_st w c \<noteq> NotStarted \<Longrightarrow> readPump_st w' c \<noteq> NotStarted"
      "\<And>c. writePump_st w c \<noteq> NotStarted \<Longrightarrow> writePump_st w' c \<noteq> NotStarted"
  shows "hub_inv w'"
proof (rule hub_invI)
  fix T cs assume "channels (hub w') T = Some cs"
  then show "cs \<noteq> {||}" using hub_inv_nonempty[OF inv, of T cs] hub by simp
next
  fix T cs c assume a: "channels (hub w') T = Some cs" "c |\<in>| cs"
  then have "channels (hub w) T = Some cs" using hub by simp
  from hub_inv_member[OF inv this a(2)] obtain cl
    where cl: "heap w c = Some cl" "channelID cl = T" "\<not> closed (send cl)" "readPump_st w c = Running"
    by blast
  from heap[of c] cl(1) obtain cl' where "heap w' c = Some cl'" "same_shape cl' cl"
    by (cases "heap w' c") auto
  then show "\<exists>cl. heap w' c = Some cl \<and> channelID cl = T \<and> \<not> closed (send cl) \<and>
              readPump_st w' c = Running"
    using cl rp[of c] by (simp add: same_shape_def)
next
  fix c cl' assume a: "heap w' c = Some cl'" "readPump_st w' c = Running"
  from heap[of c] a(1) obtain cl where cl: "heap w c = Some cl" "same_shape cl' cl"
    by (cases "heap w c") auto
  from hub_inv_running[OF inv cl(1)] a(2) rp[of c]
  show "\<exists>cs. channels (hub w') (channelID cl') = Some cs \<and> c |\<in>| cs"
    using cl(2) hub by (simp add: same_shape_def)
next
  fix c assume "heap w' c = None"
  then have "heap w c = None" using heap[of c] by (cases "heap w c") auto
  then show "readPump_st w' c = NotStarted \<and> writePump_st w' c = NotStarted"
    using fresh[of c] hub_inv_unallocated[OF inv, of c] by simp
next
  fix c cl' assume a: "heap w' c = Some cl'"
  from heap[of c] a(1) obtain cl where cl: "heap w c = Some cl" "same_shape cl' cl"
    by (cases "heap w c") auto
  then show "cap (send cl') = 256 \<and> channelID cl' \<noteq> [] \<and>
      readPump_st w' c \<noteq> NotStarted \<and> writePump_st w' c \<noteq> NotStarted"
    using hub_inv_allocated[OF inv cl(1)] started[of c] by (simp add: same_shape_def)
qed

lemma same_shape_refl [simp]: "same_shape cl cl"
  by (simp add: same_shape_def)

lemma rel_option_same_shape_refl [simp]: "rel_option same_shape x x"
  by (cases x) auto

lemma same_shape_offer [simp]: "same_shape (offer m cl) cl"
  by (simp add: same_shape_def offer_def)

lemma hub_inv_Broadcast:
  assumes inv: "hub_inv w"
  shows "\<exists>w'. Broadcast T m w = Inr w' \<and> hub_inv w'"
proof (cases "channels (hub w) T")
  case None
  then show ?thesis using inv by (simp add: Broadcast_no_entry)
next
  case (Some cs)
  have op: "\<forall>c. c |\<in>| cs \<longrightarrow> (\<exists>cl. heap w c = Some cl \<and> \<not> closed (send cl))"
    using hub_inv_member[OF inv Some] by blast
  let ?w = "w\<lparr>heap := (\<lambda>c. if c |\<in>| cs then map_option (offer m) (heap w c) else heap w c)\<rparr>"
  have "hub_inv ?w"
  proof (rule hub_inv_frame[OF inv])
    fix c show "rel_option same_shape (heap ?w c) (heap w c)"
      by (cases "heap w c") auto
  qed simp_all
  then show ?thesis unfolding Broadcast_members_open[OF Some op] by simp
qed

lemma hub_inv_readPump_iter:
  assumes inv: "hub_inv w" and run: "readPump_st w c = Running"
  shows "\<exists>w'. readPump_iter J r now c w = Inr w' \<and> hub_inv w'"
proof -
  from run hub_inv_unallocated[OF inv, of c] obtain cl where cl: "heap w c = Some cl"
    by (cases "heap w c") auto
  show ?thesis
  proof (cases "ReadMessage r (conn cl)")
    case (ReadErr unexpected)
    let ?w1 = "if unexpected then w\<lparr>logged := logged w @ [WebSocketError]\<rparr> else w"
    have "hub_inv ?w1" using inv by (simp add: hub_inv_logged)
    moreover have "heap ?w1 c = Some cl" "readPump_st ?w1 c = Running" using cl run by auto
    ultimately obtain w' where "Unregister c ?w1 = Inr w'"
      "hub_inv (w'\<lparr>readPump_st := (readPump_st w')(c := Closing)\<rparr>)"
      using hub_inv_Unregister by blast
    then show ?thesis using cl ReadErr by (simp add: readPump_iter_def)
  next
    case (ReadMsg raw)
    show ?thesis
    proof (cases "Unmarshal J raw")
      case None
      then show ?thesis using cl ReadMsg inv by (simp add: readPump_iter_def hub_inv_logged)
    next
      case (Some msg)
      then show ?thesis using cl ReadMsg inv hub_inv_Broadcast[OF inv]
        by (simp add: readPump_iter_def hub_inv_logged Let_def split: option.splits)
    qed
  qed
qed

lemma hub_inv_conn_Close:
  assumes inv: "hub_inv w" and "conn_Close c w = Inr w'"
  shows "hub_inv w'"
proof -
  from assms(2) obtain cl where cl: "heap w c = Some cl"
    and w': "w' = w\<lparr>heap := (heap w)(c \<mapsto> cl\<lparr>conn := (conn cl)\<lparr>conn_closed := True\<rparr>\<rparr>)\<rparr>"
    by (auto simp: conn_Close_def split: option.splits)
  show ?thesis
  proof (rule hub_inv_frame[OF inv])
    fix d show "rel_option same_shape (heap w' d) (heap w d)"
      using cl by (auto simp: w' same_shape_def)
  qed (simp_all add: w')
qed

lemma hub_inv_pump_st:
  assumes inv: "hub_inv w" and "readPump_st w c \<noteq> Running" "st \<noteq> Running" "heap w c \<noteq> None"
    "st \<noteq> NotStarted"
  shows "hub_inv (w\<lparr>readPump_st := (readPump_st w)(c := st)\<rparr>)"
  by (rule hub_inv_frame[OF inv]) (use assms in auto)

lemma hub_inv_writePump_st:
  assumes inv: "hub_inv w" and "heap w c \<noteq> None" "st \<noteq> NotStarted"
  shows "hub_inv (w\<lparr>writePump_st := (writePump_st w)(c := st)\<rparr>)"
  by (rule hub_inv_frame[OF inv]) (use assms in auto)

lemma hub_inv_writePump_iter:
  assumes inv: "hub_inv w" and "writePump_iter ok c w = Some (Inr w')"
  shows "hub_inv w'"
proof -
  from assms(2) obtain cl where cl: "heap w c = Some cl"
    by (auto simp: writePump_iter_def split: option.splits)
  show ?thesis
  proof (rule hub_inv_frame[OF inv])
    fix d show "rel_option same_shape (heap w' d) (heap w d)"
      using assms(2) cl
      by (auto simp: writePump_iter_def range_recv_def same_shape_def
          split: option.splits recv.splits list.splits if_splits)
  qed (use assms(2) cl in \<open>auto simp: writePump_iter_def range_recv_def
          split: option.splits recv.splits list.splits if_splits\<close>)
qed

lemma hub_inv_step:
  assumes inv: "hub_inv w" and "step J e w = Some (Inr w')"
  shows "hub_inv w'"
proof (cases e)
  case (Connect T up p)
  then show ?thesis using assms hub_inv_HandleWebSocket[OF inv, of p T up]
    by (cases "HandleWebSocket T up p w") (auto split: if_splits)
next
  case (Read c r now)
  then show ?thesis using assms hub_inv_readPump_iter[OF inv, of c J r now]
    by (auto split: if_splits)
next
  case (ReadExit c)
  with assms obtain w1 where w1: "conn_Close c w = Inr w1" "readPump_st w c = Closing"
    and w': "w' = w1\<lparr>readPump_st := (readPump_st w1)(c := Exited)\<rparr>"
    by (cases "conn_Close c w") (auto split: if_splits)
  have "hub_inv w1" by (rule hub_inv_conn_Close[OF inv w1(1)])
  moreover have "readPump_st w1 c \<noteq> Running" "heap w1 c \<noteq> None"
    using w1 by (auto simp: conn_Close_def split: option.splits)
  ultimately show ?thesis unfolding w' by (intro hub_inv_pump_st) auto
next
  case (Write c ok)
  then show ?thesis using assms hub_inv_writePump_iter[OF inv] by (auto split: if_splits)
next
  case (WriteExit c)
  with assms obtain w1 where w1: "conn_Close c w = Inr w1"
    and w': "w' = w1\<lparr>writePump_st := (writePump_st w1)(c := Exited)\<rparr>"
    by (cases "conn_Close c w") (auto split: if_splits)
  have "hub_inv w1" by (rule hub_inv_conn_Close[OF inv w1(1)])
  moreover have "heap w1 c \<noteq> None"
    using w1 by (auto simp: conn_Close_def split: option.splits)
  ultimately show ?thesis unfolding w' by (intro hub_inv_writePump_st) auto
qed

lemma hub_inv_run:
  "hub_inv w \<Longrightarrow> run J es w = Some (Inr w') \<Longrightarrow> hub_inv w'"
proof (induction es arbitrary: w)
  case Nil
  then show ?case by simp
next
  case (Cons e es)
  from Cons.prems(2) obtain w1 where s: "step J e w = Some (Inr w1)" and r: "run J es w1 = Some (Inr w')"
    by (auto split: option.splits sum.splits)
  from Cons.IH[OF hub_inv_step[OF Cons.prems(1) s] r] show ?case .
qed




section \<open>Mailboxes along a run\<close>

lemma Unregister_mailbox:
  assumes "Unregister c w = Inr w'"
  shows "wire w' r = wire w r \<and> queue w' r = queue w r \<and>
         (heap w r \<noteq> None \<longrightarrow> heap w' r \<noteq> None) \<and> writePump_st w' = writePump_st w"
  using assms
  by (auto simp: Unregister_def close_chan_def wire_def queue_def Let_def
      split: option.splits if_splits sum.splits)

lemma Broadcast_mailbox:
  assumes "Broadcast T m w = Inr w'"
  shows "wire w' r = wire w r \<and> (\<exists>new. queue w' r = queue w r @ new) \<and>
         (heap w r \<noteq> None \<longrightarrow> heap w' r \<noteq> None) \<and> writePump_st w' = writePump_st w"
proof (cases "channels (hub w) T")
  case None
  then show ?thesis using assms by (simp add: Broadcast_no_entry)
next
  case (Some cs)
  note op = Broadcast_InrD[OF assms Some]
  from assms[unfolded Broadcast_members_open[OF Some op]]
  have w': "w' = w\<lparr>heap := (\<lambda>c. if c |\<in>| cs then map_option (offer m) (heap w c) else heap w c)\<rparr>"
    by simp
  show ?thesis
    by (cases "heap w r") (auto simp: w' wire_def queue_def offer_def)
qed

lemma readPump_iter_mailbox:
  assumes "readPump_iter J rr now c w = Inr w'"
  shows "quiet r w w'"
proof -
  from assms obtain cl where cl: "heap w c = Some cl"
    by (auto simp: readPump_iter_def split: option.splits)
  show ?thesis
  proof (cases "ReadMessage rr (conn cl)")
    case (ReadErr u)
    let ?w1 = "if u then w\<lparr>logged := logged w @ [WebSocketError]\<rparr> else w"
    from assms cl ReadErr obtain w2 where w2: "Unregister c ?w1 = Inr w2"
      and w': "w' = w2\<lparr>readPump_st := (readPump_st w2)(c := Closing)\<rparr>"
      by (auto simp: readPump_iter_def Let_def split: sum.splits)
    from Unregister_mailbox[OF w2, of r] show ?thesis
      by (auto simp: quiet_def w' wire_def queue_def)
  next
    case (ReadMsg raw)
    show ?thesis
    proof (cases "Unmarshal J raw")
      case None
      then show ?thesis using assms cl ReadMsg
        by (auto simp: readPump_iter_def quiet_def wire_def queue_def)
    next
      case (Some msg)
      with assms cl ReadMsg
      have "w' = w\<lparr>logged := logged w @ [FailedToMarshal]\<rparr> \<or> (\<exists>out. Broadcast (channelID cl) out w = Inr w')"
        by (auto simp: readPump_iter_def Let_def split: option.splits)
      then show ?thesis
      proof
        assume "w' = w\<lparr>logged := logged w @ [FailedToMarshal]\<rparr>"
        then show ?thesis by (auto simp: quiet_def wire_def queue_def)
      next
        assume "\<exists>out. Broadcast (channelID cl) out w = Inr w'"
        then obtain out where "Broadcast (channelID cl) out w = Inr w'" ..
        from Broadcast_mailbox[OF this, of r] show ?thesis by (auto simp: quiet_def)
      qed
    qed
  qed
qed

lemma conn_Close_mailbox:
  assumes "conn_Close c w = Inr w1"
  shows "wire w1 r = wire w r \<and> queue w1 r = queue w r \<and>
         (heap w r \<noteq> None \<longrightarrow> heap w1 r \<noteq> None) \<and> writePump_st w1 = writePump_st w \<and>
         heap w c \<noteq> None"
  using assms by (auto simp: conn_Close_def wire_def queue_def split: option.splits if_splits)

lemma HandleWebSocket_mailbox:
  assumes "HandleWebSocket T up p w = Inr (resp, w')" "heap w p = None"
  shows "quiet r w w'"
  using assms
  by (auto simp: HandleWebSocket_def Register_def Let_def quiet_def wire_def queue_def
      new_conn_def make_chan_def split: if_splits option.splits)

lemma writePump_iter_mailbox:
  assumes "writePump_iter ok c w = Some (Inr w')" "writePump_st w c = Running"
  shows "quiet r w w' \<or> dequeues r w w'"
proof (cases "c = r")
  case False
  then show ?thesis using assms
    by (auto simp: writePump_iter_def quiet_def wire_def queue_def
        split: option.splits recv.splits)
next
  case True
  from assms obtain cl where cl: "heap w c = Some cl"
    by (auto simp: writePump_iter_def split: option.splits)
  show ?thesis
  proof (cases "buf (send cl)")
    case Nil
    then show ?thesis using assms cl True
      by (auto simp: writePump_iter_def range_recv_def quiet_def wire_def queue_def
          split: if_splits)
  next
    case (Cons v vs)
    then have "dequeues r w w'" using assms cl True
      by (auto simp: writePump_iter_def range_recv_def dequeues_def wire_def queue_def
          WriteMessage_def split: if_splits)
    then show ?thesis ..
  qed
qed

lemma step_mailbox:
  assumes "step J e w = Some (Inr w')"
  shows "quiet r w w' \<or> dequeues r w w'"
proof (cases e)
  case (Connect T up p)
  with assms obtain resp where "HandleWebSocket T up p w = Inr (resp, w')" "heap w p = None"
    by (cases "HandleWebSocket T up p w") (auto split: if_splits)
  from HandleWebSocket_mailbox[OF this] show ?thesis ..
next
  case (Read c rr now)
  with assms have "readPump_iter J rr now c w = Inr w'" by (auto split: if_splits)
  from readPump_iter_mailbox[OF this] show ?thesis ..
next
  case (ReadExit c)
  with assms obtain w1 where w1: "conn_Close c w = Inr w1"
    and w': "w' = w1\<lparr>readPump_st := (readPump_st w1)(c := Exited)\<rparr>"
    by (cases "conn_Close c w") (auto split: if_splits)
  from conn_Close_mailbox[OF w1, of r] have "quiet r w w'"
    by (auto simp: quiet_def w' wire_def queue_def)
  then show ?thesis ..
next
  case (Write c ok)
  with assms show ?thesis using writePump_iter_mailbox by (auto split: if_splits)
next
  case (WriteExit c)
  with assms obtain w1 where w1: "conn_Close c w = Inr w1" and cl: "writePump_st w c = Closing"
    and w': "w' = w1\<lparr>writePump_st := (writePump_st w1)(c := Exited)\<rparr>"
    by (cases "conn_Close c w") (auto split: if_splits)
  from conn_Close_mailbox[OF w1, of r] cl have "quiet r w w'"
    by (auto simp: quiet_def w' wire_def queue_def)
  then show ?thesis ..
qed

lemma run_writer_gone:
  assumes "run J es w = Some (Inr w')" "heap w r \<noteq> None" "writePump_st w r \<noteq> Running"
  shows "wire w' r = wire w r \<and> queue w' r = queue w r @ enqueued J r es w \<and>
         writePump_st w' r \<noteq> Running"
  using assms
proof (induction es arbitrary: w)
  case Nil
  then show ?case by simp
next
  case (Cons e es)
  from Cons.prems(1) obtain w1 where s: "step J e w = Some (Inr w1)"
    and r: "run J es w1 = Some (Inr w')"
    by (auto split: option.splits sum.splits)
  from step_mailbox[OF s, of r] Cons.prems(3) have q: "quiet r w w1"
    by (auto simp: dequeues_def)
  then obtain new where new: "queue w1 r = queue w r @ new" "wire w1 r = wire w r"
    "heap w1 r \<noteq> None" "writePump_st w1 r \<noteq> Running"
    using Cons.prems(2,3) by (auto simp: quiet_def)
  from Cons.IH[OF r new(3,4)] new s show ?case by simp
qed


section \<open>Facts about the example runs\<close>

lemma sorted_list_of_fset_single [simp]: "sorted_list_of_fset {|x|} = [x]"
  by (simp add: sorted_list_of_fset.rep_eq)

lemma sorted_list_of_fset_1_0 [simp]: "sorted_list_of_fset {|Suc 0, 0|} = [0, Suc 0]"
  by code_simp

lemma demo_json_simps [simp]:
  "Unmarshal demo_json = demo_Unmarshal" "Marshal demo_json = demo_Marshal"
  by (simp_all add: demo_json_def)

lemma demo_client_simps [simp]:
  "channelID demo_client = ''general''" "conn demo_client = new_conn"
  "send demo_client = make_chan 256" "\<not> conn_closed new_conn" "written new_conn = []"
  "buf (make_chan n) = []" "cap (make_chan n) = n" "\<not> closed (make_chan n)"
  by (simp_all add: demo_client_def new_conn_def make_chan_def)

lemma one_client_simps [simp]:
  "heap one_client 0 = Some demo_client" "heap one_client (Suc 0) = None"
  "channels (hub one_client) ''general'' = Some {|0|}"
  "channels (hub one_client) ''random'' = None"
  "readPump_st one_client 0 = Running" "writePump_st one_client 0 = Running"
  "logged one_client = [ClientConnected ''general'']"
  by (simp_all add: one_client_def)

lemma one_client_reached:
  "run J [Connect ''general'' True 0] NewWSHandler = Some (Inr one_client)"
  by (simp add: HandleWebSocket_def Register_def NewWSHandler_def NewHub_def one_client_def
      demo_client_def Let_def)

lemma write_failure_reached:
  "run demo_json write_failure_trace NewWSHandler = Some (Inr write_failure_world)"
  unfolding write_failure_trace_def
  by (simp add: HandleWebSocket_def Register_def NewWSHandler_def NewHub_def
      write_failure_world_def demo_client_def Let_def readPump_iter_def ReadMessage_def
      new_conn_def make_chan_def demo_Unmarshal_def demo_Marshal_def Broadcast_def
      select_send_def writePump_iter_def range_recv_def WriteMessage_def conn_Close_def)

lemma run_append:
  "run J (xs @ ys) w = (case run J xs w of Some (Inr w') \<Rightarrow> run J ys w' | r \<Rightarrow> r)"
  by (induction xs arbitrary: w) (auto split: option.splits sum.splits)

lemma filling_0: "filling 0 = one_client"
  by (simp add: filling_def one_client_def demo_client_def make_chan_def)

lemma step_filling:
  "k < 256 \<Longrightarrow>
   step demo_json (Read 0 (ReadMsg ''x'') ''t'') (filling k) = Some (Inr (filling (Suc k)))"
  by (simp add: filling_def readPump_iter_def ReadMessage_def demo_Unmarshal_def
      demo_Marshal_def Let_def Broadcast_def select_send_def demo_client_def make_chan_def
      new_conn_def replicate_append_same)

lemma run_filling:
  "k + n \<le> 256 \<Longrightarrow>
   run demo_json (replicate n (Read 0 (ReadMsg ''x'') ''t'')) (filling k) =
     Some (Inr (filling (k + n)))"
proof (induction n arbitrary: k)
  case 0
  then show ?case by simp
next
  case (Suc n)
  then have "k < 256" "Suc k + n \<le> 256" by simp_all
  then show ?case using Suc.IH[of "Suc k"] by (simp add: step_filling del: step.simps)
qed

lemma fill_reached: "run demo_json fill_trace NewWSHandler = Some (Inr full_and_free)"
proof -
  have a: "run demo_json [Connect ''general'' True 0] NewWSHandler = Some (Inr (filling 0))"
    unfolding filling_0 by (rule one_client_reached)
  have b: "run demo_json (replicate 256 (Read 0 (ReadMsg ''x'') ''t'')) (filling 0) =
             Some (Inr (filling 256))"
    using run_filling[of 0 256] by simp
  have c: "run demo_json [Connect ''general'' True 1] (filling 256) = Some (Inr full_and_free)"
    by (simp add: filling_def full_and_free_def HandleWebSocket_def Register_def Let_def
        demo_client_def)
  have t: "fill_trace = [Connect ''general'' True 0] @
          replicate 256 (Read 0 (ReadMsg ''x'') ''t'') @ [Connect ''general'' True 1]"
    by (simp add: fill_trace_def)
  show ?thesis by (simp only: t run_append a b c option.case sum.case)
qed

lemma full_and_free_simps [simp]:
  "channels (hub full_and_free) ''general'' = Some {|1, 0|}"
  "heap full_and_free 0 =
     Some (demo_client\<lparr>send := (make_chan 256)\<lparr>buf := replicate 256 ''message|general|alice|x|t''\<rparr>\<rparr>)"
  "heap full_and_free (Suc 0) = Some demo_client"
  "heap full_and_free 2 = None"
  by (simp_all add: full_and_free_def)

lemma fifo_reached:
  "run demo_json fifo_trace full_and_free = Some (Inr fifo_world)"
  unfolding fifo_trace_def
  by (simp add: full_and_free_def
      fifo_world_def demo_client_def Let_def readPump_iter_def ReadMessage_def
      new_conn_def make_chan_def demo_Unmarshal_def demo_Marshal_def Broadcast_def
      select_send_def writePump_iter_def range_recv_def WriteMessage_def fun_upd_twist)

lemma fifo_enqueued_1:
  "enqueued demo_json 1 fifo_trace full_and_free =
     [''message|general|alice|M1|t1'', ''message|general|alice|M2|t2'']"
  unfolding fifo_trace_def
  by (simp add: full_and_free_def
      demo_client_def Let_def readPump_iter_def ReadMessage_def queue_def
      new_conn_def make_chan_def demo_Unmarshal_def demo_Marshal_def Broadcast_def
      select_send_def writePump_iter_def range_recv_def WriteMessage_def)

lemma fifo_enqueued_0:
  "enqueued demo_json 0 fifo_trace full_and_free = []"
  unfolding fifo_trace_def
  by (simp add: full_and_free_def
      demo_client_def Let_def readPump_iter_def ReadMessage_def queue_def
      new_conn_def make_chan_def demo_Unmarshal_def demo_Marshal_def Broadcast_def
      select_send_def writePump_iter_def range_recv_def WriteMessage_def)

section \<open>Properties of the hub\<close>

text \<open>
  C1. In every state the program reaches, a broadcast of a payload to a topic returns
  without a panic and without an error value, and changes nothing but mailboxes. Every
  mailbox has the capacity 256 it was created with. A member of the topic whose
  mailbox holds fewer than 256 payloads gets the payload at the tail of its mailbox; a
  member whose mailbox is full is left as it is (the payload is dropped for it alone);
  a client that is not a member is left as it is.
\<close>

theorem Broadcast_drops_for_full_mailbox_only:
  assumes "run J es NewWSHandler = Some (Inr w)"
  shows "\<exists>w'. Broadcast T message w = Inr w' \<and>
           hub w' = hub w \<and> logged w' = logged w \<and>
           readPump_st w' = readPump_st w \<and> writePump_st w' = writePump_st w \<and>
           (\<forall>c. heap w c = None \<longrightarrow> heap w' c = None) \<and>
           (\<forall>c cl. heap w c = Some cl \<longrightarrow>
              cap (send cl) = 256 \<and>
              heap w' c =
                Some (if c |\<in>| members w T \<and> length (buf (send cl)) < 256
                      then cl\<lparr>send := (send cl)\<lparr>buf := buf (send cl) @ [message]\<rparr>\<rparr>
                      else cl))"
proof -
  have inv: "hub_inv w" by (rule hub_inv_run[OF hub_inv_init assms])
  show ?thesis
  proof (cases "channels (hub w) T")
    case None
    then show ?thesis using hub_inv_cap[OF inv]
      by (simp add: Broadcast_no_entry members_def)
  next
    case (Some cs)
    have op: "\<forall>c. c |\<in>| cs \<longrightarrow> (\<exists>cl. heap w c = Some cl \<and> \<not> closed (send cl))"
      using hub_inv_member[OF inv Some] by blast
    show ?thesis
      unfolding Broadcast_members_open[OF Some op]
      using Some hub_inv_cap[OF inv] by (simp add: members_def offer_def)
  qed
qed

theorem Broadcast_drops_for_full_mailbox_only_witness:
  "run demo_json fill_trace NewWSHandler = Some (Inr full_and_free) \<and>
   members full_and_free ''general'' = {|1, 0|} \<and>
   length (queue full_and_free 0) = 256 \<and> queue full_and_free 1 = [] \<and>
   (\<exists>w'. Broadcast ''general'' ''hello'' full_and_free = Inr w' \<and>
         hub w' = hub full_and_free \<and>
         heap w' 0 = heap full_and_free 0 \<and>
         heap w' 1 = Some (demo_client\<lparr>send := (send demo_client)\<lparr>buf := [''hello'']\<rparr>\<rparr>) \<and>
         heap w' 2 = None)"
proof -
  have r: "run demo_json fill_trace NewWSHandler = Some (Inr full_and_free)"
    by (rule fill_reached)
  have m: "members full_and_free ''general'' = {|1, 0|}" by (simp add: members_def)
  from Broadcast_drops_for_full_mailbox_only[OF r, of "''general''" "''hello''"]
  obtain w' where w': "Broadcast ''general'' ''hello'' full_and_free = Inr w'"
      "hub w' = hub full_and_free"
      "\<forall>c. heap full_and_free c = None \<longrightarrow> heap w' c = None"
    and each: "\<forall>c cl. heap full_and_free c = Some cl \<longrightarrow>
              cap (send cl) = 256 \<and>
              heap w' c =
                Some (if c |\<in>| members full_and_free ''general'' \<and> length (buf (send cl)) < 256
                      then cl\<lparr>send := (send cl)\<lparr>buf := buf (send cl) @ [''hello'']\<rparr>\<rparr>
                      else cl)"
    by blast
  have h0: "heap w' 0 = heap full_and_free 0"
    using each[rule_format, of 0] by simp
  have h1: "heap w' 1 = Some (demo_client\<lparr>send := (send demo_client)\<lparr>buf := [''hello'']\<rparr>\<rparr>)"
    using each[rule_format, of 1 demo_client] m by simp
  have h2: "heap w' 2 = None" using w'(3) by simp
  show ?thesis using r m w'(1,2) h0 h1 h2 by (simp add: queue_def)
qed



text \<open>
  C3, as it is claimed: in every reachable state every member of a topic's member set
  is an \<open>Active\<close> connection. This fails. After a client has connected and published,
  and the write of the message to it has failed, its \<open>writePump\<close> has returned and
  its connection is closed, so it is \<open>Draining\<close>; yet it is still in the member set
  of its topic, because only \<open>readPump\<close> unregisters a client.
\<close>

theorem member_not_active_counterexample:
  "run demo_json write_failure_trace NewWSHandler = Some (Inr write_failure_world) \<and>
   channels (hub write_failure_world) ''general'' = Some {|0|} \<and>
   lifecycle_of write_failure_world 0 = Draining"
  using write_failure_reached by (simp add: write_failure_world_def lifecycle_of_def)

text \<open>
  C3, amended. In every reachable state, every connection in the member set of a topic
  \<open>T\<close> is bound to \<open>T\<close>, so it is in the member set of no other topic; its mailbox
  is open and its inbound loop is running (it has not been unregistered). It is
  \<open>Active\<close> or \<open>Draining\<close>, never \<open>Closed\<close>: a connection whose outbound loop
  has ended on a write error stays a member until its inbound loop fails and
  unregisters it.
\<close>

theorem members_bound_and_registered:
  assumes "run J es NewWSHandler = Some (Inr w)"
    and "channels (hub w) T = Some cs" and "c |\<in>| cs"
  shows "\<exists>cl. heap w c = Some cl \<and> channelID cl = T \<and>
              (\<forall>U ds. channels (hub w) U = Some ds \<and> c |\<in>| ds \<longrightarrow> U = T) \<and>
              \<not> closed (send cl) \<and> readPump_st w c = Running \<and>
              (lifecycle_of w c = Active \<or> lifecycle_of w c = Draining)"
proof -
  have inv: "hub_inv w" by (rule hub_inv_run[OF hub_inv_init assms(1)])
  from hub_inv_member[OF inv assms(2,3)] obtain cl
    where cl: "heap w c = Some cl" "channelID cl = T" "\<not> closed (send cl)"
      "readPump_st w c = Running" by blast
  have "U = T" if "channels (hub w) U = Some ds" "c |\<in>| ds" for U ds
    using hub_inv_member[OF inv that] cl by auto
  moreover have "writePump_st w c \<noteq> NotStarted"
    using hub_inv_allocated[OF inv cl(1)] by simp
  ultimately show ?thesis using cl by (auto simp: lifecycle_of_def)
qed

theorem members_bound_and_registered_witness:
  "run demo_json write_failure_trace NewWSHandler = Some (Inr write_failure_world) \<and>
   channels (hub write_failure_world) ''general'' = Some {|0|} \<and> 0 |\<in>| {|0::nat|} \<and>
   (\<exists>cl. heap write_failure_world 0 = Some cl \<and> channelID cl = ''general'' \<and>
         channels (hub write_failure_world) ''random'' = None \<and>
         \<not> closed (send cl) \<and> readPump_st write_failure_world 0 = Running \<and>
         lifecycle_of write_failure_world 0 = Draining)"
proof -
  have r: "run demo_json write_failure_trace NewWSHandler = Some (Inr write_failure_world)"
    by (rule write_failure_reached)
  have m: "channels (hub write_failure_world) ''general'' = Some {|0|}"
    by (simp add: write_failure_world_def)
  have n: "channels (hub write_failure_world) ''random'' = None"
    by (simp add: write_failure_world_def)
  have d: "lifecycle_of write_failure_world 0 = Draining"
    by (simp add: write_failure_world_def lifecycle_of_def)
  from members_bound_and_registered[OF r m, of 0]
  obtain cl where "heap write_failure_world 0 = Some cl" "channelID cl = ''general''"
    "\<not> closed (send cl)" "readPump_st write_failure_world 0 = Running"
    by auto
  then show ?thesis using r m n d by simp
qed

text \<open>
  C4. In every reachable state a topic has an entry in the registry exactly when its
  member set is not empty. When the only member of a topic unregisters, the entry of
  the topic is removed at once: a lookup of the topic finds no members and a broadcast
  to it does nothing. A client that then connects to the topic gets a new member set
  that holds this client alone.
\<close>

theorem topic_entry_iff_members:
  assumes "run J es NewWSHandler = Some (Inr w)"
  shows "(\<forall>T. (channels (hub w) T \<noteq> None) = (members w T \<noteq> {||})) \<and>
         (\<forall>c cl. heap w c = Some cl \<and> channels (hub w) (channelID cl) = Some {|c|} \<longrightarrow>
            (\<exists>w1. Unregister c w = Inr w1 \<and> channels (hub w1) (channelID cl) = None \<and>
                  members w1 (channelID cl) = {||} \<and>
                  (\<forall>m. Broadcast (channelID cl) m w1 = Inr w1) \<and>
                  (\<forall>p. heap w1 p = None \<longrightarrow>
                     (\<exists>w2. HandleWebSocket (channelID cl) True p w1 = Inr (SwitchingProtocols, w2) \<and>
                           channels (hub w2) (channelID cl) = Some {|p|}))))"
proof -
  have inv: "hub_inv w" by (rule hub_inv_run[OF hub_inv_init assms(1)])
  have A: "\<forall>T. (channels (hub w) T \<noteq> None) = (members w T \<noteq> {||})"
    using hub_inv_nonempty[OF inv] by (auto simp: members_def split: option.splits)
  have B: "\<exists>w1. Unregister c w = Inr w1 \<and> channels (hub w1) (channelID cl) = None \<and>
                  members w1 (channelID cl) = {||} \<and>
                  (\<forall>m. Broadcast (channelID cl) m w1 = Inr w1) \<and>
                  (\<forall>p. heap w1 p = None \<longrightarrow>
                     (\<exists>w2. HandleWebSocket (channelID cl) True p w1 = Inr (SwitchingProtocols, w2) \<and>
                           channels (hub w2) (channelID cl) = Some {|p|}))"
    if cl: "heap w c = Some cl" and one: "channels (hub w) (channelID cl) = Some {|c|}" for c cl
  proof -
    have op: "\<not> closed (send cl)" using hub_inv_member[OF inv one, of c] cl by auto
    have ne: "channelID cl \<noteq> []" using hub_inv_allocated[OF inv cl] by simp
    have c: "c |\<in>| {|c|}" by simp
    show ?thesis
      unfolding Unregister_member[OF cl one c op]
      using ne by (auto simp: members_def Broadcast_def HandleWebSocket_def Register_def Let_def)
  qed
  show ?thesis using A B by blast
qed

theorem topic_entry_iff_members_witness:
  "run demo_json [Connect ''general'' True 0] NewWSHandler = Some (Inr one_client) \<and>
   channels (hub one_client) ''general'' \<noteq> None \<and> members one_client ''general'' \<noteq> {||} \<and>
   channels (hub one_client) ''random'' = None \<and> members one_client ''random'' = {||} \<and>
   heap one_client 0 = Some demo_client \<and>
   channels (hub one_client) (channelID demo_client) = Some {|0|} \<and>
   (\<exists>w1. Unregister 0 one_client = Inr w1 \<and> channels (hub w1) ''general'' = None \<and>
         members w1 ''general'' = {||} \<and> Broadcast ''general'' ''hello'' w1 = Inr w1 \<and>
         heap w1 1 = None \<and>
         (\<exists>w2. HandleWebSocket ''general'' True 1 w1 = Inr (SwitchingProtocols, w2) \<and>
               channels (hub w2) ''general'' = Some {|1|}))"
proof -
  have r: "run demo_json [Connect ''general'' True 0] NewWSHandler = Some (Inr one_client)"
    by (rule one_client_reached)
  have h: "heap one_client 0 = Some demo_client \<and>
           channels (hub one_client) (channelID demo_client) = Some {|0|}" by simp
  from topic_entry_iff_members[OF r] h
  obtain w1 where w1: "Unregister 0 one_client = Inr w1"
      "channels (hub w1) (channelID demo_client) = None"
      "members w1 (channelID demo_client) = {||}"
      "\<forall>m. Broadcast (channelID demo_client) m w1 = Inr w1"
      "\<forall>p. heap w1 p = None \<longrightarrow>
         (\<exists>w2. HandleWebSocket (channelID demo_client) True p w1 = Inr (SwitchingProtocols, w2) \<and>
               channels (hub w2) (channelID demo_client) = Some {|p|})"
    by blast
  have free: "heap w1 1 = None"
    using w1(1) by (auto simp: Unregister_def close_chan_def Let_def one_client_def
        split: option.splits if_splits sum.splits)
  from w1(5) free obtain w2 where
    "HandleWebSocket ''general'' True 1 w1 = Inr (SwitchingProtocols, w2)"
    "channels (hub w2) ''general'' = Some {|1|}" by auto
  then show ?thesis using r w1 free by (auto simp: members_def)
qed

text \<open>
  C5. \<open>Unregister\<close> is idempotent. If a call of \<open>Unregister\<close> returns, a second call
  for the same connection returns as well (it does not panic, so it does not close the
  mailbox again) and leaves the whole state, registry and log included, as the first
  call left it. When the connection was registered, the first call is the one that
  closes its open mailbox, logs the disconnection and takes it out of the member set.
\<close>

theorem Unregister_idempotent:
  assumes "Unregister c w = Inr w1"
  shows "Unregister c w1 = Inr w1 \<and>
         (\<forall>cl cs. heap w c = Some cl \<and> channels (hub w) (channelID cl) = Some cs \<and> c |\<in>| cs \<longrightarrow>
            \<not> closed (send cl) \<and>
            heap w1 c = Some (cl\<lparr>send := (send cl)\<lparr>closed := True\<rparr>\<rparr>) \<and>
            logged w1 = logged w @ [ClientDisconnected (channelID cl)] \<and>
            members w1 (channelID cl) = cs |-| {|c|})"
proof -
  from assms obtain cl where cl: "heap w c = Some cl"
    by (auto simp: Unregister_def split: option.splits)
  show ?thesis
  proof (cases "channels (hub w) (channelID cl)")
    case None
    then show ?thesis using assms cl by (auto simp: Unregister_def)
  next
    case (Some cs)
    show ?thesis
    proof (cases "c |\<in>| cs")
      case True
      then have op: "\<not> closed (send cl)"
        using assms cl Some by (auto simp: Unregister_def close_chan_def split: if_splits)
      from assms[unfolded Unregister_member[OF cl Some True op]]
      have w1: "w1 = w\<lparr>heap := (heap w)(c \<mapsto> cl\<lparr>send := (send cl)\<lparr>closed := True\<rparr>\<rparr>),
            logged := logged w @ [ClientDisconnected (channelID cl)],
            hub := (hub w)\<lparr>channels :=
              (if cs |-| {|c|} = {||} then (channels (hub w))(channelID cl := None)
               else (channels (hub w))(channelID cl \<mapsto> cs |-| {|c|}))\<rparr>\<rparr>" by simp
      have "Unregister c w1 = Inr w1"
        unfolding w1 by (simp add: Unregister_def)
      then show ?thesis using cl Some True op by (auto simp: w1 members_def)
    next
      case False
      then show ?thesis using assms cl Some
        by (auto simp: Unregister_def split: if_splits)
    qed
  qed
qed

theorem Unregister_idempotent_witness:
  "\<exists>w1. Unregister 0 one_client = Inr w1 \<and> Unregister 0 w1 = Inr w1 \<and>
        heap one_client 0 = Some demo_client \<and>
        channels (hub one_client) (channelID demo_client) = Some {|0|} \<and> 0 |\<in>| {|0::nat|} \<and>
        \<not> closed (send demo_client) \<and>
        heap w1 0 = Some (demo_client\<lparr>send := (send demo_client)\<lparr>closed := True\<rparr>\<rparr>) \<and>
        logged w1 = [ClientConnected ''general'', ClientDisconnected ''general''] \<and>
        members w1 ''general'' = {||}"
proof -
  have m: "channels (hub one_client) (channelID demo_client) = Some {|0|}" by simp
  obtain w1 where w1: "Unregister 0 one_client = Inr w1"
    using Unregister_member[of one_client 0 demo_client "{|0|}"] by simp
  from Unregister_idempotent[OF w1] m show ?thesis using w1 by auto
qed

text \<open>
  C6. The mailbox of a connection is first in, first out. Along every run, and for
  every connection \<open>r\<close>: what the outbound loop of \<open>r\<close> has written to the wire,
  followed by what is still queued, is what was there at the start followed by the
  payloads that entered the mailbox during the run, in the order in which they entered
  (so of two payloads published one after the other and both queued, the first is
  written first, and a payload dropped at a full mailbox is nowhere in the sequence).
  Nothing is written twice or out of order. At most one payload is missing: the one
  whose write failed, which ends the outbound loop.
\<close>

theorem mailbox_fifo:
  assumes "run J es w = Some (Inr w')"
  shows "\<exists>lost. wire w' r @ lost @ queue w' r = wire w r @ queue w r @ enqueued J r es w \<and>
           length lost \<le> 1 \<and> (writePump_st w' r = Running \<longrightarrow> lost = [])"
  using assms
proof (induction es arbitrary: w)
  case Nil
  then show ?case by simp
next
  case (Cons e es)
  from Cons.prems(1) obtain w1 where s: "step J e w = Some (Inr w1)"
    and r: "run J es w1 = Some (Inr w')"
    by (auto split: option.splits sum.splits)
  have enq: "enqueued J r (e # es) w = drop (length (queue w r)) (queue w1 r) @ enqueued J r es w1"
    using s by simp
  from Cons.IH[OF r] obtain lost
    where IH: "wire w' r @ lost @ queue w' r = wire w1 r @ queue w1 r @ enqueued J r es w1"
      "length lost \<le> 1" "writePump_st w' r = Running \<longrightarrow> lost = []" by blast
  from step_mailbox[OF s, of r] show ?case
  proof
    assume "quiet r w w1"
    then obtain new where "queue w1 r = queue w r @ new" "wire w1 r = wire w r"
      by (auto simp: quiet_def)
    then show ?thesis using IH enq by auto
  next
    assume "dequeues r w w1"
    then obtain v where v: "queue w r = v # queue w1 r" "heap w1 r \<noteq> None"
      and alt: "wire w1 r = wire w r @ [v] \<or> wire w1 r = wire w r \<and> writePump_st w1 r \<noteq> Running"
      by (auto simp: dequeues_def)
    have enq': "enqueued J r (e # es) w = enqueued J r es w1" using enq v(1) by simp
    from alt show ?thesis
    proof
      assume "wire w1 r = wire w r @ [v]"
      then show ?thesis using IH v(1) enq' by auto
    next
      assume a: "wire w1 r = wire w r \<and> writePump_st w1 r \<noteq> Running"
      from run_writer_gone[OF r v(2)] a
      have "wire w' r = wire w r" "queue w' r = queue w1 r @ enqueued J r es w1"
        "writePump_st w' r \<noteq> Running" by auto
      then have "wire w' r @ [v] @ queue w' r = wire w r @ queue w r @ enqueued J r (e # es) w"
        using v(1) enq' by simp
      then show ?thesis using \<open>writePump_st w' r \<noteq> Running\<close>
        by (intro exI[of _ "[v]"]) simp
    qed
  qed
qed

theorem mailbox_fifo_witness:
  "run demo_json fill_trace NewWSHandler = Some (Inr full_and_free) \<and>
   run demo_json fifo_trace full_and_free = Some (Inr fifo_world) \<and>
   writePump_st fifo_world 1 = Running \<and> writePump_st fifo_world 0 = Running \<and>
   enqueued demo_json 1 fifo_trace full_and_free =
     [''message|general|alice|M1|t1'', ''message|general|alice|M2|t2''] \<and>
   wire full_and_free 1 = [] \<and> queue full_and_free 1 = [] \<and>
   wire fifo_world 1 = [''message|general|alice|M1|t1'', ''message|general|alice|M2|t2''] \<and>
   queue fifo_world 1 = [] \<and>
   length (queue full_and_free 0) = 256 \<and>
   enqueued demo_json 0 fifo_trace full_and_free = [] \<and>
   wire fifo_world 0 = wire full_and_free 0 \<and> queue fifo_world 0 = queue full_and_free 0 \<and>
   (\<exists>lost. wire fifo_world 1 @ lost @ queue fifo_world 1 =
             wire full_and_free 1 @ queue full_and_free 1 @
             enqueued demo_json 1 fifo_trace full_and_free \<and> lost = []) \<and>
   (\<exists>lost. wire fifo_world 0 @ lost @ queue fifo_world 0 =
             wire full_and_free 0 @ queue full_and_free 0 @
             enqueued demo_json 0 fifo_trace full_and_free \<and> lost = [])"
proof -
  have r: "run demo_json fifo_trace full_and_free = Some (Inr fifo_world)"
    by (rule fifo_reached)
  have st: "writePump_st fifo_world 1 = Running" "writePump_st fifo_world 0 = Running"
    by (simp_all add: fifo_world_def)
  from mailbox_fifo[OF r, of 1] st
  have one: "\<exists>lost. wire fifo_world 1 @ lost @ queue fifo_world 1 =
             wire full_and_free 1 @ queue full_and_free 1 @
             enqueued demo_json 1 fifo_trace full_and_free \<and> lost = []"
    by auto
  from mailbox_fifo[OF r, of 0] st
  have zero: "\<exists>lost. wire fifo_world 0 @ lost @ queue fifo_world 0 =
             wire full_and_free 0 @ queue full_and_free 0 @
             enqueued demo_json 0 fifo_trace full_and_free \<and> lost = []"
    by auto
  have obs: "wire full_and_free 1 = []" "queue full_and_free 1 = []"
    "wire fifo_world 1 = [''message|general|alice|M1|t1'', ''message|general|alice|M2|t2'']"
    "queue fifo_world 1 = []" "length (queue full_and_free 0) = 256"
    "wire fifo_world 0 = wire full_and_free 0" "queue fifo_world 0 = queue full_and_free 0"
    by (simp_all add: wire_def queue_def fifo_world_def full_and_free_def)
  show ?thesis
    using fill_reached r st fifo_enqueued_1 fifo_enqueued_0 obs one zero
    by (simp only: simp_thms)
qed

text \<open>
  C7. A connection attempt whose topic identifier is empty is answered at once with
  the client error 400, and the state is exactly what it was: no client struct, no
  mailbox, no change to the registry. An attempt with a non-empty identifier is never
  answered with such an error.
\<close>

theorem HandleWebSocket_requires_channel:
  "HandleWebSocket [] upgraded p w = Inr (HttpError ''channel parameter required'' 400, w) \<and>
   (channel \<noteq> [] \<longrightarrow>
      (\<forall>text code w'. HandleWebSocket channel upgraded p w \<noteq> Inr (HttpError text code, w')))"
  by (auto simp: HandleWebSocket_def Let_def split: sum.splits)

theorem HandleWebSocket_requires_channel_witness:
  "HandleWebSocket [] True 0 NewWSHandler =
     Inr (HttpError ''channel parameter required'' 400, NewWSHandler) \<and>
   ''general'' \<noteq> [] \<and>
   HandleWebSocket ''general'' True 0 NewWSHandler \<noteq>
     Inr (HttpError ''channel parameter required'' 400, NewWSHandler)"
  using HandleWebSocket_requires_channel[of True 0 NewWSHandler "''general''"]
  by simp







end
